theory Spec2Isabelle
  imports Main "HOL-Library.Sublist"
begin

section \<open>The Wordle solver of \<^verbatim>\<open>wordle.py\<close>\<close>

text \<open>
  A shallow embedding of \<^verbatim>\<open>src/wordle.py\<close>. Python strings are \<open>string\<close>
  (lists of characters), Python integers are \<open>int\<close>, the \<^verbatim>\<open>Game\<close> dataclass is
  a record that every method takes and returns, and every exception the code can raise is a
  value of \<open>error\<close> on the left of a sum. Printing (\<^verbatim>\<open>display_response\<close> and
  the two final messages) does not influence control flow; the final message is kept as a
  \<open>report\<close>, the coloured rendering is left out.
\<close>

subsection \<open>Data\<close>

datatype Hint = YES | MOVE | NO

datatype error = TypeError | IndexError | KeyError

type_synonym response = "(Hint \<times> char) list"

record game =
  solution :: string
  responses :: "response list"
  guess_limit :: int
  word_bank :: "string list"
  solved :: bool

datatype report = Success nat int | Failure

subsection \<open>Library functions used by the source\<close>

text \<open>
  \<^verbatim>\<open>functools.reduce(f, xs)\<close> without an initial value folds from the left, starting
  with the first element, and raises \<^verbatim>\<open>TypeError\<close> on an empty sequence.
\<close>

definition reduce :: "('a \<Rightarrow> 'a \<Rightarrow> 'a) \<Rightarrow> 'a list \<Rightarrow> error + 'a" where
  "reduce f xs = (case xs of [] \<Rightarrow> Inl TypeError | x # rest \<Rightarrow> Inr (foldl f x rest))"

text \<open>
  \<^verbatim>\<open>word.find(letter)\<close> for a one-character needle: the lowest index of the letter,
  or \<open>-1\<close>.
\<close>

fun str_find :: "string \<Rightarrow> char \<Rightarrow> int" where
  "str_find [] c = - 1"
| "str_find (x # xs) c =
     (if x = c then 0 else (let r = str_find xs c in if r = - 1 then - 1 else r + 1))"

text \<open>
  A list comprehension \<^verbatim>\<open>[f(x) for x in xs]\<close> whose body may raise: the first
  exception, in iteration order, is the result.
\<close>

fun comprehension :: "('a \<Rightarrow> error + 'b) \<Rightarrow> 'a list \<Rightarrow> error + 'b list" where
  "comprehension f [] = Inr []"
| "comprehension f (x # xs) =
     (case f x of
        Inl e \<Rightarrow> Inl e
      | Inr y \<Rightarrow> (case comprehension f xs of Inl e \<Rightarrow> Inl e | Inr ys \<Rightarrow> Inr (y # ys)))"

text \<open>
  \<^verbatim>\<open>word[i]\<close> raises \<^verbatim>\<open>IndexError\<close> when \<open>i\<close> is not below the length
  (the indices used by the source are never negative).
\<close>

definition char_at :: "string \<Rightarrow> nat \<Rightarrow> error + char" where
  "char_at word i = (if i < length word then Inr (word ! i) else Inl IndexError)"

subsection \<open>\<^verbatim>\<open>letter_frequencies\<close>\<close>

text \<open>
  The inner loop runs over \<^verbatim>\<open>set(word)\<close>, whose iteration order Python leaves open;
  the model visits the distinct letters in the order of \<open>remdups\<close>. Lemma
  \<open>count_letters_order\<close> below shows that the resulting map does not depend on that order.
\<close>

definition bump :: "(char \<rightharpoonup> int) \<Rightarrow> char \<Rightarrow> (char \<rightharpoonup> int)" where
  "bump frequency_map letter =
     (if letter \<in> dom frequency_map
      then frequency_map(letter \<mapsto> the (frequency_map letter) + 1)
      else frequency_map(letter \<mapsto> 1))"

definition count_letters :: "char list \<Rightarrow> (char \<rightharpoonup> int) \<Rightarrow> (char \<rightharpoonup> int)" where
  "count_letters letters frequency_map = fold (\<lambda>letter m. bump m letter) letters frequency_map"

definition letter_frequencies :: "string list \<Rightarrow> (char \<rightharpoonup> int)" where
  "letter_frequencies words = fold (\<lambda>word m. count_letters (remdups word) m) words Map.empty"

subsection \<open>\<^verbatim>\<open>Game.next_guess\<close>\<close>

text \<open>
  The local function \<^verbatim>\<open>score\<close> closes over \<^verbatim>\<open>freqs\<close>, here its first
  argument. It sums over \<^verbatim>\<open>set(word)\<close>; integer addition is commutative and
  associative, so the order in which the distinct letters are met does not change the sum.
  \<open>better\<close> is the lambda of the final reduction and \<open>score_map\<close> the list of the same
  name, with the frequency map it is computed from.
\<close>

definition score :: "(char \<rightharpoonup> int) \<Rightarrow> string \<Rightarrow> error + int" where
  "score freqs word =
     (case comprehension (\<lambda>letter. case freqs letter of None \<Rightarrow> Inl KeyError | Some n \<Rightarrow> Inr n)
             (remdups word) of
        Inl e \<Rightarrow> Inl e
      | Inr ns \<Rightarrow> reduce (\<lambda>a b. a + b) ns)"

definition better :: "string \<times> int \<Rightarrow> string \<times> int \<Rightarrow> string \<times> int" where
  "better a b = (if snd a > snd b then a else b)"

definition score_map :: "string list \<Rightarrow> error + (string \<times> int) list" where
  "score_map bank =
     (let freqs = letter_frequencies bank
      in comprehension
           (\<lambda>word. case score freqs word of Inl e \<Rightarrow> Inl e | Inr s \<Rightarrow> Inr (word, s)) bank)"

definition next_guess :: "game \<Rightarrow> error + string" where
  "next_guess g =
     (case score_map (word_bank g) of
        Inl e \<Rightarrow> Inl e
      | Inr sm \<Rightarrow> (case reduce better sm of Inl e \<Rightarrow> Inl e | Inr best \<Rightarrow> Inr (fst best)))"

subsection \<open>\<^verbatim>\<open>Game.respond\<close>\<close>

definition evaluate :: "game \<Rightarrow> char \<Rightarrow> char \<Rightarrow> Hint \<times> char" where
  "evaluate g gc sc =
     (if gc = sc then (YES, gc)
      else if str_find (solution g) gc > - 1 then (MOVE, gc)
      else (NO, gc))"

definition respond :: "game \<Rightarrow> string \<Rightarrow> response" where
  "respond g guess = map (\<lambda>(gc, sc). evaluate g gc sc) (zip guess (solution g))"

subsection \<open>\<^verbatim>\<open>Game.pare_word_bank\<close>\<close>

text \<open>
  One round of the loop body, for position \<open>i\<close>. The \<^verbatim>\<open>YES\<close> comprehension
  indexes every word still in the bank and raises \<^verbatim>\<open>IndexError\<close> on the first
  word that is too short.
\<close>

definition keep_exact :: "nat \<Rightarrow> char \<Rightarrow> string list \<Rightarrow> error + string list" where
  "keep_exact i letter bank =
     (case comprehension (\<lambda>word. char_at word i) bank of
        Inl e \<Rightarrow> Inl e
      | Inr _ \<Rightarrow> Inr (filter (\<lambda>word. word ! i = letter) bank))"

definition pare_step :: "nat \<Rightarrow> Hint \<times> char \<Rightarrow> string list \<Rightarrow> error + string list" where
  "pare_step i hl bank =
     (case hl of
        (YES, letter) \<Rightarrow> keep_exact i letter bank
      | (MOVE, letter) \<Rightarrow> Inr (filter (\<lambda>word. str_find word letter > - 1) bank)
      | (NO, letter) \<Rightarrow> Inr (filter (\<lambda>word. str_find word letter = - 1) bank))"

text \<open>The loop \<^verbatim>\<open>for i in range(len(response))\<close>, from index \<open>i\<close> on.\<close>

fun pare_from :: "nat \<Rightarrow> response \<Rightarrow> string list \<Rightarrow> error + string list" where
  "pare_from i [] bank = Inr bank"
| "pare_from i (hl # rest) bank =
     (case pare_step i hl bank of Inl e \<Rightarrow> Inl e | Inr bank' \<Rightarrow> pare_from (Suc i) rest bank')"

definition pare_word_bank :: "game \<Rightarrow> response \<Rightarrow> error + game" where
  "pare_word_bank g response =
     (case pare_from 0 response (word_bank g) of
        Inl e \<Rightarrow> Inl e
      | Inr bank' \<Rightarrow> Inr (g\<lparr>word_bank := bank'\<rparr>))"

subsection \<open>\<^verbatim>\<open>Game.play\<close>\<close>

text \<open>
  \<open>all_yes\<close> is the reduction that sets \<^verbatim>\<open>self.solved\<close>: the conjunction of the
  tests \<^verbatim>\<open>h == Hint.YES\<close> over the response, a \<^verbatim>\<open>TypeError\<close> when the
  response is empty.
\<close>

definition all_yes :: "response \<Rightarrow> error + bool" where
  "all_yes response = reduce (\<lambda>a b. a \<and> b) (map (\<lambda>(h, _). if h = YES then True else False) response)"

text \<open>
  The \<^verbatim>\<open>while\<close> loop can run forever (for instance with a limit of 0 and a bank the
  hints never shrink), so \<open>play\<close> is a partial function: \<open>None\<close> is not returning,
  \<open>Some (Inl e)\<close> is an exception leaving \<^verbatim>\<open>play\<close>, and \<open>Some (Inr (g', r))\<close>
  is a normal return in state \<open>g'\<close> after printing the final message \<open>r\<close> (none when
  the loop body never ran).
\<close>

partial_function (option) play :: "game \<Rightarrow> (error + game \<times> report option) option" where
  "play g =
     (if solved g then Some (Inr (g, None))
      else
        case next_guess g of
          Inl e \<Rightarrow> Some (Inl e)
        | Inr guess \<Rightarrow>
            (case all_yes (respond g guess) of
               Inl e \<Rightarrow> Some (Inl e)
             | Inr s \<Rightarrow>
                 (let g' = g\<lparr>responses := responses g @ [respond g guess], solved := s\<rparr>
                  in if s
                     then Some (Inr (g', Some (Success (length (responses g')) (guess_limit g'))))
                     else if int (length (responses g')) = guess_limit g'
                     then Some (Inr (g', Some Failure))
                     else (case pare_word_bank g' (respond g guess) of
                             Inl e \<Rightarrow> Some (Inl e)
                           | Inr g'' \<Rightarrow> play g''))))"

subsection \<open>Auxiliary notions for the proofs\<close>

text \<open>
  \<open>consistent i response word\<close>: the word passes the tests that the loop of
  \<^verbatim>\<open>pare_word_bank\<close> applies for the entries of \<open>response\<close>, the first of them
  at position \<open>i\<close>. It is used in the lemmas only: a run of the loop that raises nothing
  is the filter by this predicate (lemma \<open>pare_from_filter\<close>).
\<close>

fun consistent :: "nat \<Rightarrow> response \<Rightarrow> string \<Rightarrow> bool" where
  "consistent i [] word = True"
| "consistent i ((h, letter) # rest) word =
     ((case h of
         YES \<Rightarrow> i < length word \<and> word ! i = letter
       | MOVE \<Rightarrow> letter \<in> set word
       | NO \<Rightarrow> letter \<notin> set word)
      \<and> consistent (Suc i) rest word)"

text \<open>The session of the end-to-end scenario, used to evaluate the functions on an input.\<close>

definition abbey_game :: game where
  "abbey_game = \<lparr>solution = ''abbey'', responses = [], guess_limit = 6,
     word_bank = [''abbey'', ''table'', ''chair'', ''amber'', ''belay''], solved = False\<rparr>"

definition abbey_pared :: game where
  "abbey_pared = abbey_game\<lparr>word_bank := [''abbey'', ''amber'']\<rparr>"

text \<open>
  Further sessions for evaluation: a bank of two anagrams (equal scores), a bank without the
  solution, an empty bank, and the two later states of the end-to-end scenario.
\<close>

definition tie_game :: game where
  "tie_game = \<lparr>solution = ''abbey'', responses = [], guess_limit = 6,
     word_bank = [''angel'', ''angle''], solved = False\<rparr>"

definition chair_game :: game where
  "chair_game = \<lparr>solution = ''abbey'', responses = [], guess_limit = 6,
     word_bank = [''chair''], solved = False\<rparr>"

definition empty_game :: game where
  "empty_game = \<lparr>solution = ''abbey'', responses = [], guess_limit = 6,
     word_bank = [], solved = False\<rparr>"

definition abbey_round1 :: game where
  "abbey_round1 = abbey_game\<lparr>responses := [respond abbey_game ''belay''],
     word_bank := [''abbey'']\<rparr>"

definition abbey_won :: game where
  "abbey_won = abbey_round1\<lparr>
     responses := [respond abbey_game ''belay'', respond abbey_game ''abbey''],
     solved := True\<rparr>"

text \<open>
  A session that never ends: the limit is 0, so the test against the number of responses never
  succeeds, and the hints of the guess \<^verbatim>\<open>angle\<close> for the solution
  \<^verbatim>\<open>angel\<close> remove neither word from the bank.
\<close>

definition stuck_game :: "response list \<Rightarrow> game" where
  "stuck_game rs = \<lparr>solution = ''angel'', responses = rs, guess_limit = 0,
     word_bank = [''angel'', ''angle''], solved = False\<rparr>"

section \<open>Lemmas\<close>

text \<open>The definitions that evaluating the session code on a concrete input unfolds.\<close>

lemmas eval_defs =
  abbey_game_def abbey_pared_def respond_def evaluate_def pare_word_bank_def pare_step_def
  keep_exact_def char_at_def

lemmas guess_defs =
  next_guess_def score_map_def score_def reduce_def better_def letter_frequencies_def
  count_letters_def bump_def

subsection \<open>Library functions\<close>

lemma str_find_ge: "- 1 \<le> str_find w c"
  by (induction w) (auto simp: Let_def)

lemma str_find_found: "(str_find w c > - 1) = (c \<in> set w)"
proof (induction w)
  case Nil
  show ?case by simp
next
  case (Cons x w)
  have "- 1 \<le> str_find w c" by (rule str_find_ge)
  with Cons show ?case by (auto simp: Let_def)
qed

lemma str_find_missing: "(str_find w c = - 1) = (c \<notin> set w)"
  using str_find_found [of w c] str_find_ge [of w c] by auto

lemma comprehension_Inr: "(comprehension f xs = Inr ys) = list_all2 (\<lambda>x y. f x = Inr y) xs ys"
proof (induction xs arbitrary: ys)
  case Nil
  show ?case by auto
next
  case (Cons x xs)
  show ?case
    by (cases ys) (auto simp: Cons [symmetric] split: sum.splits)
qed

lemma comprehension_Inl: "comprehension f xs = Inl e \<Longrightarrow> \<exists>x \<in> set xs. f x = Inl e"
  by (induction xs) (auto split: sum.splits)

lemma comprehension_Inr_elem:
  "comprehension f xs = Inr ys \<Longrightarrow> x \<in> set xs \<Longrightarrow> \<exists>y. f x = Inr y"
  by (induction xs arbitrary: ys) (auto split: sum.splits)

lemma comprehension_total:
  "(\<And>x. x \<in> set xs \<Longrightarrow> \<exists>y. f x = Inr y) \<Longrightarrow> \<exists>ys. comprehension f xs = Inr ys"
proof (induction xs)
  case Nil
  show ?case by simp
next
  case (Cons x xs)
  then obtain y ys where "f x = Inr y" "comprehension f xs = Inr ys"
    by (meson list.set_intros)
  then show ?case by simp
qed

lemma keep_exact_eq:
  "keep_exact i letter bank =
     (if \<forall>w \<in> set bank. i < length w then Inr (filter (\<lambda>word. word ! i = letter) bank)
      else Inl IndexError)"
proof (cases "\<forall>w \<in> set bank. i < length w")
  case True
  then have "\<exists>ys. comprehension (\<lambda>word. char_at word i) bank = Inr ys"
    by (intro comprehension_total) (simp add: char_at_def)
  with True show ?thesis by (auto simp: keep_exact_def)
next
  case False
  have "comprehension (\<lambda>word. char_at word i) bank = Inl IndexError"
  proof (cases "comprehension (\<lambda>word. char_at word i) bank")
    case (Inl e)
    from comprehension_Inl [OF this] show ?thesis
      using Inl by (auto simp: char_at_def split: if_splits)
  next
    case (Inr ys)
    then have "\<forall>w \<in> set bank. \<exists>y. char_at w i = Inr y"
      by (blast dest: comprehension_Inr_elem)
    with False show ?thesis by (auto simp: char_at_def split: if_splits)
  qed
  with False show ?thesis by (simp add: keep_exact_def)
qed

subsection \<open>Paring the word bank\<close>

lemma pare_step_filter:
  "pare_step i (h, letter) bank = Inr b \<Longrightarrow> b = filter (consistent i [(h, letter)]) bank"
  by (cases h)
    (auto simp: pare_step_def keep_exact_eq str_find_found str_find_missing
      split: if_splits intro: filter_cong)

lemma pare_from_filter:
  "pare_from i response bank = Inr b \<Longrightarrow> b = filter (consistent i response) bank"
proof (induction response arbitrary: i bank)
  case Nil
  then show ?case by simp
next
  case (Cons hl rest)
  obtain h letter where hl: "hl = (h, letter)" by (cases hl)
  from Cons.prems obtain b1 where
    s: "pare_step i hl bank = Inr b1" and r: "pare_from (Suc i) rest b1 = Inr b"
    by (auto split: sum.splits)
  from s have "b1 = filter (consistent i [(h, letter)]) bank"
    unfolding hl by (rule pare_step_filter)
  moreover from r have "b = filter (consistent (Suc i) rest) b1" by (rule Cons.IH)
  ultimately show ?case by (auto simp: hl intro: filter_cong)
qed

lemma pare_step_total:
  "\<forall>w \<in> set bank. i < length w \<Longrightarrow> \<exists>b. pare_step i hl bank = Inr b"
  by (cases hl; cases "fst hl") (auto simp: pare_step_def keep_exact_eq)

lemma pare_from_total:
  "\<forall>w \<in> set bank. i + length response \<le> length w \<Longrightarrow> \<exists>b. pare_from i response bank = Inr b"
proof (induction response arbitrary: i bank)
  case Nil
  show ?case by simp
next
  case (Cons hl rest)
  then have "\<forall>w \<in> set bank. i < length w" by auto
  then obtain b1 where s: "pare_step i hl bank = Inr b1"
    using pare_step_total by blast
  obtain h letter where hl: "hl = (h, letter)" by (cases hl)
  from s have "b1 = filter (consistent i [(h, letter)]) bank"
    unfolding hl by (rule pare_step_filter)
  with Cons.prems have "\<forall>w \<in> set b1. Suc i + length rest \<le> length w" by auto
  from Cons.IH [OF this] s show ?case by auto
qed

lemma pare_step_again:
  assumes "pare_step i hl bank = Inr b1" and "set b \<subseteq> set b1"
  shows "pare_step i hl b = Inr b"
proof -
  obtain h letter where hl: "hl = (h, letter)" by (cases hl)
  from assms(1) have b1: "b1 = filter (consistent i [(h, letter)]) bank"
    unfolding hl by (rule pare_step_filter)
  with assms(2) have ok: "\<forall>w \<in> set b. consistent i [(h, letter)] w" by auto
  then have "filter (consistent i [(h, letter)]) b = b" by (simp add: filter_id_conv)
  moreover from ok have "h = YES \<Longrightarrow> \<forall>w \<in> set b. i < length w" by auto
  then have "\<exists>b'. pare_step i hl b = Inr b'"
    by (cases h) (auto simp: hl pare_step_def keep_exact_eq)
  then obtain b' where b': "pare_step i hl b = Inr b'" ..
  then have "b' = filter (consistent i [(h, letter)]) b"
    unfolding hl by (rule pare_step_filter)
  ultimately show ?thesis using b' by simp
qed

lemma pare_from_again:
  "pare_from i response bank = Inr b \<Longrightarrow> pare_from i response b = Inr b"
proof (induction response arbitrary: i bank)
  case Nil
  then show ?case by simp
next
  case (Cons hl rest)
  from Cons.prems obtain b1 where
    s: "pare_step i hl bank = Inr b1" and r: "pare_from (Suc i) rest b1 = Inr b"
    by (auto split: sum.splits)
  from r have "b = filter (consistent (Suc i) rest) b1" by (rule pare_from_filter)
  then have "set b \<subseteq> set b1" by auto
  with s have "pare_step i hl b = Inr b" by (rule pare_step_again)
  moreover from r have "pare_from (Suc i) rest b = Inr b" by (rule Cons.IH)
  ultimately show ?case by simp
qed

lemma consistent_respond:
  "consistent i (map (\<lambda>(gc, sc). evaluate g gc sc) (zip gs (drop i (solution g)))) (solution g)"
proof (induction gs arbitrary: i)
  case Nil
  show ?case by simp
next
  case (Cons x gs)
  show ?case
  proof (cases "i < length (solution g)")
    case False
    then show ?thesis by simp
  next
    case True
    then have d: "drop i (solution g) = solution g ! i # drop (Suc i) (solution g)"
      by (simp add: Cons_nth_drop_Suc)
    show ?thesis
      using True Cons.IH [of "Suc i"]
      by (simp add: d evaluate_def str_find_found)
  qed
qed

lemma count_list_filter:
  "count_list (filter P xs) w = (if P w then count_list xs w else 0)"
  by (induction xs) auto

lemma pare_word_bank_Inr:
  "(pare_word_bank g response = Inr g') =
     (\<exists>b. pare_from 0 response (word_bank g) = Inr b \<and> g' = g\<lparr>word_bank := b\<rparr>)"
  by (auto simp: pare_word_bank_def split: sum.splits)

lemma length_respond: "length (respond g guess) = min (length guess) (length (solution g))"
  by (simp add: respond_def)

lemma respond_consistent: "consistent 0 (respond g guess) (solution g)"
  using consistent_respond [of 0 g guess] by (simp add: respond_def)

lemma abbey_table_pared:
  "pare_word_bank abbey_game (respond abbey_game ''table'') = Inr abbey_pared"
  by (simp add: eval_defs)

subsection \<open>Letter frequencies\<close>

lemma bump_apply:
  "bump m l c = (if c = l then Some (case m l of None \<Rightarrow> 1 | Some n \<Rightarrow> n + 1) else m c)"
  by (auto simp: bump_def dom_def split: option.splits)

lemma count_letters_apply:
  "distinct ls \<Longrightarrow>
   count_letters ls m c =
     (if c \<in> set ls then Some (case m c of None \<Rightarrow> 1 | Some n \<Rightarrow> n + 1) else m c)"
  unfolding count_letters_def
proof (induction ls arbitrary: m)
  case Nil
  show ?case by simp
next
  case (Cons l ls)
  then show ?case by (auto simp: bump_apply)
qed

lemma count_letters_order:
  "distinct ls \<Longrightarrow> distinct ls' \<Longrightarrow> set ls = set ls' \<Longrightarrow> count_letters ls m = count_letters ls' m"
  by (rule ext) (simp add: count_letters_apply)

lemma fold_count_letters:
  "fold (\<lambda>word m. count_letters (remdups word) m) words m c =
     (if \<exists>w \<in> set words. c \<in> set w
      then Some ((case m c of None \<Rightarrow> 0 | Some n \<Rightarrow> n) + int (length (filter (\<lambda>w. c \<in> set w) words)))
      else m c)"
proof (induction words arbitrary: m)
  case Nil
  show ?case by simp
next
  case (Cons w words)
  define m' where "m' = count_letters (remdups w) m"
  have m': "m' c = (if c \<in> set w then Some (case m c of None \<Rightarrow> 1 | Some n \<Rightarrow> n + 1) else m c)"
    by (simp add: m'_def count_letters_apply)
  have "fold (\<lambda>word m. count_letters (remdups word) m) (w # words) m c =
        fold (\<lambda>word m. count_letters (remdups word) m) words m' c"
    by (simp add: m'_def)
  also have "\<dots> =
     (if \<exists>w \<in> set words. c \<in> set w
      then Some ((case m' c of None \<Rightarrow> 0 | Some n \<Rightarrow> n) +
                 int (length (filter (\<lambda>w. c \<in> set w) words)))
      else m' c)"
    by (rule Cons.IH)
  also have "\<dots> =
     (if \<exists>v \<in> set (w # words). c \<in> set v
      then Some ((case m c of None \<Rightarrow> 0 | Some n \<Rightarrow> n) +
                 int (length (filter (\<lambda>w. c \<in> set w) (w # words))))
      else m c)"
    by (auto simp: m' split: option.splits)
  finally show ?case .
qed

lemma letter_frequencies_apply:
  "letter_frequencies words c =
     (if \<exists>w \<in> set words. c \<in> set w
      then Some (int (length (filter (\<lambda>w. c \<in> set w) words)))
      else None)"
  by (simp add: letter_frequencies_def fold_count_letters)

subsection \<open>Hints\<close>

lemma respond_nth:
  "i < length guess \<Longrightarrow> i < length (solution g) \<Longrightarrow>
   respond g guess ! i = evaluate g (guess ! i) (solution g ! i)"
  by (simp add: respond_def)

lemma evaluate_cases:
  "fst (evaluate g gc sc) = YES \<longleftrightarrow> gc = sc"
  "fst (evaluate g gc sc) = MOVE \<longleftrightarrow> gc \<noteq> sc \<and> gc \<in> set (solution g)"
  "fst (evaluate g gc sc) = NO \<longleftrightarrow> gc \<noteq> sc \<and> gc \<notin> set (solution g)"
  "snd (evaluate g gc sc) = gc"
  by (auto simp: evaluate_def str_find_found)

lemma respond_position:
  assumes "length guess = length (solution g)" and "i < length guess"
  shows "(fst (respond g guess ! i) = YES \<longleftrightarrow> guess ! i = solution g ! i) \<and>
     (fst (respond g guess ! i) = NO \<longleftrightarrow> guess ! i \<notin> set (solution g)) \<and>
     (fst (respond g guess ! i) = MOVE \<longleftrightarrow>
        guess ! i \<noteq> solution g ! i \<and> guess ! i \<in> set (solution g)) \<and>
     snd (respond g guess ! i) = guess ! i"
proof -
  from assms have n: "respond g guess ! i = evaluate g (guess ! i) (solution g ! i)"
    by (simp add: respond_nth)
  from assms have "solution g ! i \<in> set (solution g)" by simp
  then show ?thesis unfolding n evaluate_cases by auto
qed

subsection \<open>Guess selection\<close>

lemma reduce_Inr: "xs \<noteq> [] \<Longrightarrow> reduce f xs = Inr (foldl f (hd xs) (tl xs))"
  by (cases xs) (simp_all add: reduce_def)

lemma reduce_Nil: "reduce f [] = Inl TypeError"
  by (simp add: reduce_def)

lemma foldl_better_split:
  "\<exists>ys zs. x # xs = ys @ foldl better x xs # zs \<and>
     (\<forall>a \<in> set ys. snd a \<le> snd (foldl better x xs)) \<and>
     (\<forall>a \<in> set zs. snd a < snd (foldl better x xs))"
proof (induction xs rule: rev_induct)
  case Nil
  have "[x] = [] @ x # []" by simp
  then show ?case by fastforce
next
  case (snoc y xs)
  let ?r = "foldl better x xs"
  from snoc obtain ys zs where
    s: "x # xs = ys @ ?r # zs" and
    le: "\<forall>a \<in> set ys. snd a \<le> snd ?r" and
    lt: "\<forall>a \<in> set zs. snd a < snd ?r"
    by blast
  show ?case
  proof (cases "snd ?r > snd y")
    case True
    then have r: "foldl better x (xs @ [y]) = ?r" by (simp add: better_def)
    have "x # xs @ [y] = ys @ ?r # (zs @ [y])" using s by simp
    moreover have "\<forall>a \<in> set (zs @ [y]). snd a < snd ?r" using lt True by auto
    ultimately show ?thesis unfolding r using le by blast
  next
    case False
    then have r: "foldl better x (xs @ [y]) = y" by (simp add: better_def)
    have "x # xs @ [y] = (x # xs) @ y # []" by simp
    moreover have "\<forall>a \<in> set (x # xs). snd a \<le> snd y"
    proof
      fix a assume "a \<in> set (x # xs)"
      then have "a \<in> set ys \<or> a = ?r \<or> a \<in> set zs" unfolding s by auto
      with le lt have "snd a \<le> snd ?r" by force
      with False show "snd a \<le> snd y" by simp
    qed
    moreover have "\<forall>a \<in> set []. snd a < snd y" by simp
    ultimately show ?thesis unfolding r by blast
  qed
qed

lemma reduce_better_split:
  assumes "sm \<noteq> []"
  shows "\<exists>r ys zs. reduce better sm = Inr r \<and> sm = ys @ r # zs \<and>
     (\<forall>a \<in> set ys. snd a \<le> snd r) \<and> (\<forall>a \<in> set zs. snd a < snd r)"
proof -
  from assms obtain x xs where sm: "sm = x # xs" by (cases sm) auto
  from foldl_better_split [of x xs] show ?thesis
    unfolding sm by (simp add: reduce_def)
qed

lemma score_total:
  assumes "set word \<subseteq> dom freqs" and "word \<noteq> []"
  shows "\<exists>s. score freqs word = Inr s"
proof -
  let ?look = "\<lambda>letter. case freqs letter of None \<Rightarrow> Inl KeyError | Some n \<Rightarrow> Inr n"
  have "\<exists>ns. comprehension ?look (remdups word) = Inr ns"
  proof (rule comprehension_total)
    fix c assume "c \<in> set (remdups word)"
    with assms(1) obtain n where "freqs c = Some n" by auto
    then show "\<exists>y. ?look c = Inr y" by simp
  qed
  then obtain ns where ns: "comprehension ?look (remdups word) = Inr ns" ..
  then have "length ns = length (remdups word)"
    by (simp add: comprehension_Inr list_all2_lengthD)
  with assms(2) have "ns \<noteq> []" by auto
  with ns show ?thesis by (simp add: score_def reduce_Inr)
qed

lemma dom_letter_frequencies: "dom (letter_frequencies words) = \<Union> (set ` set words)"
  by (auto simp: dom_def letter_frequencies_apply)

lemma score_in_bank:
  assumes "word \<in> set bank" and "word \<noteq> []"
  shows "\<exists>s. score (letter_frequencies bank) word = Inr s"
  using assms by (intro score_total) (auto simp: dom_letter_frequencies)

lemma score_map_Inr:
  "score_map bank = Inr sm \<longleftrightarrow>
     list_all2 (\<lambda>w p. fst p = w \<and> score (letter_frequencies bank) w = Inr (snd p)) bank sm"
proof -
  have "(\<lambda>w p. (case score (letter_frequencies bank) w of Inl e \<Rightarrow> Inl e
                 | Inr s \<Rightarrow> Inr (w, s)) = Inr p) =
        (\<lambda>w p. fst p = w \<and> score (letter_frequencies bank) w = Inr (snd p))"
    by (intro ext) (auto split: sum.splits)
  then show ?thesis by (simp add: score_map_def comprehension_Inr)
qed

lemma score_map_total:
  assumes "\<forall>w \<in> set bank. w \<noteq> []"
  shows "\<exists>sm. score_map bank = Inr sm"
  unfolding score_map_def Let_def
proof (rule comprehension_total)
  fix w assume "w \<in> set bank"
  with assms obtain s where "score (letter_frequencies bank) w = Inr s"
    using score_in_bank by blast
  then show "\<exists>y. (case score (letter_frequencies bank) w of Inl e \<Rightarrow> Inl e
                  | Inr s \<Rightarrow> Inr (w, s)) = Inr y" by simp
qed

lemma next_guess_split:
  assumes "word_bank g \<noteq> []" and "\<forall>w \<in> set (word_bank g). w \<noteq> []"
  shows "\<exists>us w vs s. next_guess g = Inr w \<and> word_bank g = us @ w # vs \<and>
     score (letter_frequencies (word_bank g)) w = Inr s \<and>
     (\<forall>u \<in> set us. \<exists>t. score (letter_frequencies (word_bank g)) u = Inr t \<and> t \<le> s) \<and>
     (\<forall>v \<in> set vs. \<exists>t. score (letter_frequencies (word_bank g)) v = Inr t \<and> t < s)"
proof -
  let ?sc = "score (letter_frequencies (word_bank g))"
  let ?R = "\<lambda>w p. fst p = w \<and> ?sc w = Inr (snd p)"
  from assms(2) obtain sm where sm: "score_map (word_bank g) = Inr sm"
    using score_map_total by blast
  then have rel: "list_all2 ?R (word_bank g) sm" by (simp add: score_map_Inr)
  with assms(1) have "sm \<noteq> []" by auto
  then obtain r ys zs where r: "reduce better sm = Inr r" and split: "sm = ys @ r # zs"
    and le: "\<forall>a \<in> set ys. snd a \<le> snd r" and lt: "\<forall>a \<in> set zs. snd a < snd r"
    using reduce_better_split by blast
  from rel obtain us rest where b1: "word_bank g = us @ rest"
    and rus: "list_all2 ?R us ys" and rrest: "list_all2 ?R rest (r # zs)"
    unfolding split by (auto simp: list_all2_append2)
  from rrest obtain w vs where b2: "rest = w # vs" and rw: "?R w r" and rvs: "list_all2 ?R vs zs"
    by (auto simp: list_all2_Cons2)
  have "next_guess g = Inr w" using sm r rw by (simp add: next_guess_def)
  moreover have "word_bank g = us @ w # vs" using b1 b2 by simp
  moreover have "?sc w = Inr (snd r)" using rw by simp
  moreover have "\<forall>u \<in> set us. \<exists>t. ?sc u = Inr t \<and> t \<le> snd r"
  proof
    fix u assume "u \<in> set us"
    then obtain i where i: "i < length us" "us ! i = u" by (auto simp: in_set_conv_nth)
    with rus have "?R u (ys ! i)" and "i < length ys" by (auto simp: list_all2_conv_all_nth)
    with le show "\<exists>t. ?sc u = Inr t \<and> t \<le> snd r" by auto
  qed
  moreover have "\<forall>v \<in> set vs. \<exists>t. ?sc v = Inr t \<and> t < snd r"
  proof
    fix v assume "v \<in> set vs"
    then obtain i where i: "i < length vs" "vs ! i = v" by (auto simp: in_set_conv_nth)
    with rvs have "?R v (zs ! i)" and "i < length zs" by (auto simp: list_all2_conv_all_nth)
    with lt show "\<exists>t. ?sc v = Inr t \<and> t < snd r" by auto
  qed
  ultimately show ?thesis by blast
qed

lemma next_guess_in_bank:
  assumes "word_bank g \<noteq> []" and "\<forall>w \<in> set (word_bank g). w \<noteq> []"
  shows "\<exists>w \<in> set (word_bank g). next_guess g = Inr w"
proof -
  from next_guess_split [OF assms] obtain us w vs where
    "next_guess g = Inr w" "word_bank g = us @ w # vs" by blast
  then show ?thesis by auto
qed

lemma next_guess_empty: "word_bank g = [] \<Longrightarrow> next_guess g = Inl TypeError"
  by (simp add: next_guess_def score_map_def reduce_def)

lemma tie_game_scores:
  "score (letter_frequencies (word_bank tie_game)) ''angel'' = Inr 10"
  "score (letter_frequencies (word_bank tie_game)) ''angle'' = Inr 10"
  by (simp_all add: tie_game_def guess_defs)

lemma tie_game_guess: "next_guess tie_game = Inr ''angle''"
  by (simp add: tie_game_def guess_defs)

subsection \<open>The play loop\<close>

lemma foldl_and: "foldl (\<lambda>a b. a \<and> b) x xs = (x \<and> (\<forall>b \<in> set xs. b))"
  by (induction xs arbitrary: x) auto

lemma all_yes_eq:
  "all_yes response =
     (if response = [] then Inl TypeError else Inr (\<forall>hl \<in> set response. fst hl = YES))"
proof (cases response)
  case Nil
  then show ?thesis by (simp add: all_yes_def reduce_def)
next
  case (Cons hl rest)
  then show ?thesis
    by (auto simp: all_yes_def reduce_def foldl_and case_prod_beta)
qed

lemma play_solved: "solved g \<Longrightarrow> play g = Some (Inr (g, None))"
  by (subst play.simps) simp

lemma play_no_guess:
  "\<not> solved g \<Longrightarrow> next_guess g = Inl e \<Longrightarrow> play g = Some (Inl e)"
  by (subst play.simps) simp

lemma play_no_hints:
  "\<not> solved g \<Longrightarrow> next_guess g = Inr guess \<Longrightarrow> respond g guess = [] \<Longrightarrow>
   play g = Some (Inl TypeError)"
  by (subst play.simps) (simp add: all_yes_eq)

lemma play_round:
  assumes "\<not> solved g" and "next_guess g = Inr guess" and "respond g guess \<noteq> []"
    and "s = (\<forall>hl \<in> set (respond g guess). fst hl = YES)"
    and "g1 = g\<lparr>responses := responses g @ [respond g guess], solved := s\<rparr>"
  shows "play g =
     (if s then Some (Inr (g1, Some (Success (Suc (length (responses g))) (guess_limit g))))
      else if int (Suc (length (responses g))) = guess_limit g
      then Some (Inr (g1, Some Failure))
      else (case pare_word_bank g1 (respond g guess) of
              Inl e \<Rightarrow> Some (Inl e)
            | Inr g2 \<Rightarrow> play g2))"
  using assms by (subst play.simps) (simp add: all_yes_eq Let_def)

lemma play_halts:
  "solved g \<or> int (length (responses g)) < guess_limit g \<Longrightarrow> \<exists>res. play g = Some res"
proof (induction "nat (guess_limit g) - length (responses g)" arbitrary: g rule: less_induct)
  case less
  show ?case
  proof (cases "solved g")
    case True
    then show ?thesis by (simp add: play_solved)
  next
    case False
    with less.prems have lim: "int (length (responses g)) < guess_limit g" by simp
    show ?thesis
    proof (cases "next_guess g")
      case (Inl e)
      with False show ?thesis by (simp add: play_no_guess)
    next
      case (Inr guess)
      show ?thesis
      proof (cases "respond g guess = []")
        case True
        with False Inr show ?thesis by (simp add: play_no_hints)
      next
        case ne: False
        define s where "s = (\<forall>hl \<in> set (respond g guess). fst hl = YES)"
        define g1 where "g1 = g\<lparr>responses := responses g @ [respond g guess], solved := s\<rparr>"
        note round = play_round [OF False Inr ne s_def g1_def]
        show ?thesis
        proof (cases "s \<or> int (Suc (length (responses g))) = guess_limit g")
          case True
          then show ?thesis unfolding round by auto
        next
          case cont: False
          show ?thesis
          proof (cases "pare_word_bank g1 (respond g guess)")
            case (Inl e)
            with cont show ?thesis unfolding round by simp
          next
            case (Inr g2)
            then have g2: "responses g2 = responses g @ [respond g guess]"
              "guess_limit g2 = guess_limit g"
              by (auto simp: pare_word_bank_Inr g1_def)
            with lim cont have "int (length (responses g2)) < guess_limit g2" by simp
            moreover from g2 lim
            have "nat (guess_limit g2) - length (responses g2) <
                  nat (guess_limit g) - length (responses g)" by simp
            ultimately have "\<exists>res. play g2 = Some res" using less.hyps by blast
            with cont Inr show ?thesis unfolding round by simp
          qed
        qed
      qed
    qed
  qed
qed

lemma play_returns:
  assumes "solution g \<in> set (word_bank g)"
    and "\<forall>w \<in> set (word_bank g). length w = length (solution g)"
    and "solution g \<noteq> []"
    and "\<not> solved g"
    and "int (length (responses g)) < guess_limit g"
  shows "\<exists>g' r. play g = Some (Inr (g', Some r)) \<and>
     length (responses g) < length (responses g') \<and>
     int (length (responses g')) \<le> guess_limit g \<and>
     (solved g' \<and> r = Success (length (responses g')) (guess_limit g) \<or>
      \<not> solved g' \<and> r = Failure \<and> int (length (responses g')) = guess_limit g)"
  using assms
proof (induction "nat (guess_limit g) - length (responses g)" arbitrary: g rule: less_induct)
  case less
  note has = \<open>solution g \<in> set (word_bank g)\<close>
  note wf = \<open>\<forall>w \<in> set (word_bank g). length w = length (solution g)\<close>
  note pos = \<open>solution g \<noteq> []\<close>
  note unsolved = \<open>\<not> solved g\<close>
  note lim = \<open>int (length (responses g)) < guess_limit g\<close>
  from has have "word_bank g \<noteq> []" by auto
  moreover have "\<forall>w \<in> set (word_bank g). w \<noteq> []"
  proof
    fix w assume "w \<in> set (word_bank g)"
    with wf have "length w = length (solution g)" by blast
    with pos show "w \<noteq> []" by auto
  qed
  ultimately obtain guess where
    mem: "guess \<in> set (word_bank g)" and ng: "next_guess g = Inr guess"
    using next_guess_in_bank by blast
  from mem wf have "length guess = length (solution g)" by blast
  then have len: "length (respond g guess) = length (solution g)"
    by (simp add: length_respond)
  with pos have ne: "respond g guess \<noteq> []" by auto
  define s where "s = (\<forall>hl \<in> set (respond g guess). fst hl = YES)"
  define g1 where "g1 = g\<lparr>responses := responses g @ [respond g guess], solved := s\<rparr>"
  note round = play_round [OF unsolved ng ne s_def g1_def]
  have g1: "responses g1 = responses g @ [respond g guess]" "solved g1 = s"
    "guess_limit g1 = guess_limit g" "word_bank g1 = word_bank g" "solution g1 = solution g"
    by (simp_all add: g1_def)
  show ?case
  proof (cases s)
    case True
    have "play g = Some (Inr (g1, Some (Success (Suc (length (responses g))) (guess_limit g))))"
      unfolding round using True by simp
    moreover have "length (responses g1) = Suc (length (responses g))" by (simp add: g1)
    moreover have "solved g1" using True by (simp add: g1)
    moreover have "int (Suc (length (responses g))) \<le> guess_limit g" using lim by simp
    ultimately show ?thesis by auto
  next
    case unsolved1: False
    show ?thesis
    proof (cases "int (Suc (length (responses g))) = guess_limit g")
      case True
      have "play g = Some (Inr (g1, Some Failure))"
        unfolding round using True unsolved1 by simp
      moreover have "length (responses g1) = Suc (length (responses g))" by (simp add: g1)
      moreover have "\<not> solved g1" using unsolved1 by (simp add: g1)
      ultimately show ?thesis using True by auto
    next
      case cont: False
      have "\<forall>w \<in> set (word_bank g1). 0 + length (respond g guess) \<le> length w"
      proof
        fix w assume "w \<in> set (word_bank g1)"
        then have "w \<in> set (word_bank g)" by (simp add: g1)
        with wf have "length w = length (solution g)" by blast
        then show "0 + length (respond g guess) \<le> length w" unfolding len by simp
      qed
      then obtain b where b: "pare_from 0 (respond g guess) (word_bank g1) = Inr b"
        using pare_from_total by blast
      define g2 where "g2 = g1\<lparr>word_bank := b\<rparr>"
      from b have p: "pare_word_bank g1 (respond g guess) = Inr g2"
        by (simp add: pare_word_bank_def g2_def)
      from b have bf: "b = filter (consistent 0 (respond g guess)) (word_bank g)"
        by (simp add: pare_from_filter g1)
      have g2: "responses g2 = responses g @ [respond g guess]" "solved g2 = s"
        "guess_limit g2 = guess_limit g" "word_bank g2 = b" "solution g2 = solution g"
        by (simp_all add: g2_def g1)
      have "solution g \<in> set b"
        unfolding bf using has by (simp add: respond_consistent)
      then have 1: "solution g2 \<in> set (word_bank g2)" by (simp add: g2)
      have 2: "\<forall>w \<in> set (word_bank g2). length w = length (solution g2)"
      proof
        fix w assume "w \<in> set (word_bank g2)"
        then have "w \<in> set (word_bank g)" by (simp add: g2 bf)
        with wf show "length w = length (solution g2)" unfolding g2 by blast
      qed
      have 3: "solution g2 \<noteq> []" using pos by (simp add: g2)
      have 4: "\<not> solved g2" using unsolved1 by (simp add: g2)
      have 5: "int (length (responses g2)) < guess_limit g2"
        using lim cont by (simp add: g2)
      have 6: "nat (guess_limit g2) - length (responses g2) <
                     nat (guess_limit g) - length (responses g)"
        using lim by (simp add: g2)
      from less.hyps [OF 6 1 2 3 4 5] obtain g' r where
        "play g2 = Some (Inr (g', Some r))"
        "length (responses g2) < length (responses g')"
        "int (length (responses g')) \<le> guess_limit g2"
        "solved g' \<and> r = Success (length (responses g')) (guess_limit g2) \<or>
         \<not> solved g' \<and> r = Failure \<and> int (length (responses g')) = guess_limit g2"
        by blast
      moreover have "play g = play g2"
        unfolding round using unsolved1 cont p by simp
      ultimately show ?thesis by (auto simp: g2)
    qed
  qed
qed

lemma chair_game_pared:
  "pare_word_bank chair_game (respond chair_game ''chair'') = Inr (chair_game\<lparr>word_bank := []\<rparr>)"
  by (simp add: chair_game_def eval_defs)

lemma abbey_game_round1: "play abbey_game = play abbey_round1"
proof -
  have u: "\<not> solved abbey_game" by (simp add: abbey_game_def)
  have ng: "next_guess abbey_game = Inr ''belay''"
    by (simp add: abbey_game_def guess_defs)
  have r: "respond abbey_game ''belay'' =
      [(MOVE, CHR ''b''), (MOVE, CHR ''e''), (NO, CHR ''l''), (MOVE, CHR ''a''), (YES, CHR ''y'')]"
    by (simp add: eval_defs)
  have ne: "respond abbey_game ''belay'' \<noteq> []" by (simp add: r)
  have p: "pare_word_bank
        (abbey_game\<lparr>responses := responses abbey_game @ [respond abbey_game ''belay''],
           solved := False\<rparr>) (respond abbey_game ''belay'') = Inr abbey_round1"
    unfolding r by (simp add: abbey_round1_def eval_defs)
  have s: "(\<forall>hl \<in> set (respond abbey_game ''belay''). fst hl = YES) = False"
    by (simp add: r)
  have l: "guess_limit abbey_game = 6" "responses abbey_game = []"
    by (simp_all add: abbey_game_def)
  show ?thesis
    unfolding play_round [OF u ng ne refl refl] s using p by (simp add: l)
qed

lemma abbey_game_round2: "play abbey_round1 = Some (Inr (abbey_won, Some (Success 2 6)))"
proof -
  have u: "\<not> solved abbey_round1" by (simp add: abbey_round1_def abbey_game_def)
  have ng: "next_guess abbey_round1 = Inr ''abbey''"
    by (simp add: abbey_round1_def abbey_game_def guess_defs)
  have r: "respond abbey_round1 ''abbey'' =
      [(YES, CHR ''a''), (YES, CHR ''b''), (YES, CHR ''b''), (YES, CHR ''e''), (YES, CHR ''y'')]"
    by (simp add: abbey_round1_def eval_defs)
  have r': "respond abbey_game ''abbey'' = respond abbey_round1 ''abbey''"
    by (simp add: abbey_round1_def eval_defs)
  have ne: "respond abbey_round1 ''abbey'' \<noteq> []" by (simp add: r)
  have s: "(\<forall>hl \<in> set (respond abbey_round1 ''abbey''). fst hl = YES) = True"
    by (simp add: r)
  have l: "guess_limit abbey_round1 = 6" "length (responses abbey_round1) = 1"
    by (simp_all add: abbey_round1_def abbey_game_def)
  have w: "abbey_round1\<lparr>responses := responses abbey_round1 @ [respond abbey_round1 ''abbey''],
      solved := True\<rparr> = abbey_won"
    by (simp add: abbey_won_def r' abbey_round1_def)
  show ?thesis
    unfolding play_round [OF u ng ne refl refl] s by (simp add: l w)
qed

lemma chair_game_play: "play chair_game = Some (Inl TypeError)"
proof -
  have "play chair_game =
        play (chair_game\<lparr>responses := [respond chair_game ''chair''], word_bank := []\<rparr>)"
    by (subst play.simps) (simp add: chair_game_def guess_defs all_yes_def eval_defs)
  also have "\<dots> = Some (Inl TypeError)"
    by (rule play_no_guess) (simp_all add: chair_game_def next_guess_empty)
  finally show ?thesis .
qed

lemma abbey_game_play: "play abbey_game = Some (Inr (abbey_won, Some (Success 2 6)))"
  using abbey_game_round1 abbey_game_round2 by simp

text \<open>
  The loop does diverge on some sessions, which is why \<open>play\<close> is a partial function
  and why the guess limit of the termination result has to be positive.
\<close>

lemma stuck_game_guess: "next_guess (stuck_game rs) = Inr ''angle''"
  by (simp add: stuck_game_def guess_defs)

lemma stuck_game_respond:
  "respond (stuck_game rs) ''angle'' =
     [(YES, CHR ''a''), (YES, CHR ''n''), (YES, CHR ''g''), (MOVE, CHR ''l''), (MOVE, CHR ''e'')]"
  by (simp add: stuck_game_def respond_def evaluate_def)

lemma stuck_game_pared:
  "pare_word_bank (stuck_game rs\<lparr>responses := rs @ [r], solved := False\<rparr>)
     [(YES, CHR ''a''), (YES, CHR ''n''), (YES, CHR ''g''), (MOVE, CHR ''l''), (MOVE, CHR ''e'')] =
   Inr (stuck_game (rs @ [r]))"
  by (simp add: stuck_game_def pare_word_bank_def pare_step_def keep_exact_def char_at_def)

lemma stuck_game_step:
  "(if solved (stuck_game rs) then Some (Inr (stuck_game rs, None))
      else
        case next_guess (stuck_game rs) of
          Inl e \<Rightarrow> Some (Inl e)
        | Inr guess \<Rightarrow>
            (case all_yes (respond (stuck_game rs) guess) of
               Inl e \<Rightarrow> Some (Inl e)
             | Inr s \<Rightarrow>
                 (let g' = (stuck_game rs)\<lparr>responses := responses (stuck_game rs) @ [respond (stuck_game rs) guess], solved := s\<rparr>
                  in if s
                     then Some (Inr (g', Some (Success (length (responses g')) (guess_limit g'))))
                     else if int (length (responses g')) = guess_limit g'
                     then Some (Inr (g', Some Failure))
                     else (case pare_word_bank g' (respond (stuck_game rs) guess) of
                             Inl e \<Rightarrow> Some (Inl e)
                           | Inr g'' \<Rightarrow> f g'')))) =
   f (stuck_game (rs @ [respond (stuck_game rs) ''angle'']))"
proof -
  have u: "\<not> solved (stuck_game rs)" "responses (stuck_game rs) = rs"
    "guess_limit (stuck_game rs) = 0"
    by (simp_all add: stuck_game_def)
  show ?thesis
    by (simp add: u stuck_game_guess all_yes_eq Let_def stuck_game_pared stuck_game_respond)
qed

lemma play_stuck_aux:
  assumes "play g = Some y"
  shows "\<forall>rs. g \<noteq> stuck_game rs"
proof (rule play.raw_induct [where P = "\<lambda>g y. \<forall>rs. g \<noteq> stuck_game rs", OF _ assms], goal_cases)
  case (1 f g y)
  show ?case
  proof (intro allI notI)
    fix rs assume g: "g = stuck_game rs"
    from 1(2) have s: "f (stuck_game (rs @ [respond (stuck_game rs) ''angle''])) = Some y"
      unfolding g stuck_game_step .
    have "\<forall>rs'. stuck_game (rs @ [respond (stuck_game rs) ''angle'']) \<noteq> stuck_game rs'"
      using s by (rule 1(1))
    then show False by blast
  qed
qed

lemma play_can_diverge: "play (stuck_game []) = None"
proof (cases "play (stuck_game [])")
  case None
  then show ?thesis .
next
  case (Some y)
  from play_stuck_aux [OF this] show ?thesis by blast
qed

section \<open>The claims\<close>

text \<open>
  C6. Paring never adds a candidate: when \<^verbatim>\<open>pare_word_bank\<close> returns, every word of
  the new bank is a word of the old one. It returns (raises no \<^verbatim>\<open>IndexError\<close>)
  whenever no word of the bank is shorter than the hint sequence, in particular for a bank
  of words of the hint sequence's length.
\<close>

theorem pare_word_bank_subset:
  "(pare_word_bank g response = Inr g' \<longrightarrow> set (word_bank g') \<subseteq> set (word_bank g)) \<and>
   ((\<forall>w \<in> set (word_bank g). length response \<le> length w) \<longrightarrow>
      (\<exists>g''. pare_word_bank g response = Inr g''))"
proof (intro conjI impI)
  assume "pare_word_bank g response = Inr g'"
  then obtain b where "pare_from 0 response (word_bank g) = Inr b"
    and g': "g' = g\<lparr>word_bank := b\<rparr>"
    by (auto simp: pare_word_bank_Inr)
  then have "b = filter (consistent 0 response) (word_bank g)" by (simp add: pare_from_filter)
  with g' show "set (word_bank g') \<subseteq> set (word_bank g)" by auto
next
  assume "\<forall>w \<in> set (word_bank g). length response \<le> length w"
  then have "\<exists>b. pare_from 0 response (word_bank g) = Inr b"
    by (intro pare_from_total) simp
  then show "\<exists>g''. pare_word_bank g response = Inr g''"
    by (auto simp: pare_word_bank_Inr)
qed

theorem pare_word_bank_subset_witness:
  "pare_word_bank abbey_game (respond abbey_game ''table'') = Inr abbey_pared \<and>
   set (word_bank abbey_pared) \<subseteq> set (word_bank abbey_game) \<and>
   list_all (\<lambda>w. length (respond abbey_game ''table'') \<le> length w) (word_bank abbey_game)"
proof -
  have l: "list_all (\<lambda>w. length (respond abbey_game ''table'') \<le> length w)
             (word_bank abbey_game)"
    by (simp add: eval_defs)
  from abbey_table_pared l
    pare_word_bank_subset [of abbey_game "respond abbey_game ''table''" abbey_pared]
  show ?thesis by blast
qed

text \<open>
  C9. Paring is idempotent: paring the pared bank again with the same hint sequence returns
  the very same bank (and raises nothing).
\<close>

theorem pare_word_bank_idempotent:
  "pare_word_bank g response = Inr g' \<Longrightarrow> pare_word_bank g' response = Inr g'"
proof -
  assume "pare_word_bank g response = Inr g'"
  then obtain b where b: "pare_from 0 response (word_bank g) = Inr b"
    and g': "g' = g\<lparr>word_bank := b\<rparr>"
    by (auto simp: pare_word_bank_Inr)
  from b have "pare_from 0 response b = Inr b" by (rule pare_from_again)
  with g' show ?thesis by (simp add: pare_word_bank_def)
qed

theorem pare_word_bank_idempotent_witness:
  "pare_word_bank abbey_game (respond abbey_game ''table'') = Inr abbey_pared \<and>
   pare_word_bank abbey_pared (respond abbey_game ''table'') = Inr abbey_pared"
  using abbey_table_pared pare_word_bank_idempotent [OF abbey_table_pared] by simp

text \<open>
  C10. The pared bank is a subsequence of the bank: the surviving words keep their relative
  order, and each surviving word keeps its number of occurrences. So the order in which
  \<^verbatim>\<open>next_guess\<close> meets the words, which decides its ties, is inherited from round
  to round.
\<close>

theorem pare_word_bank_subseq:
  "pare_word_bank g response = Inr g' \<Longrightarrow>
     subseq (word_bank g') (word_bank g) \<and>
     (\<forall>w \<in> set (word_bank g'). count_list (word_bank g') w = count_list (word_bank g) w)"
proof -
  assume "pare_word_bank g response = Inr g'"
  then obtain b where "pare_from 0 response (word_bank g) = Inr b"
    and g': "g' = g\<lparr>word_bank := b\<rparr>"
    by (auto simp: pare_word_bank_Inr)
  then have b: "b = filter (consistent 0 response) (word_bank g)" by (simp add: pare_from_filter)
  have "subseq b (word_bank g)" unfolding b by (rule subseq_filter_left)
  moreover have "\<forall>w \<in> set b. count_list b w = count_list (word_bank g) w"
    unfolding b by (simp add: count_list_filter)
  ultimately show ?thesis by (simp add: g')
qed

theorem pare_word_bank_subseq_witness:
  "pare_word_bank abbey_game (respond abbey_game ''table'') = Inr abbey_pared \<and>
   subseq (word_bank abbey_pared) (word_bank abbey_game) \<and>
   count_list (word_bank abbey_pared) ''amber'' = count_list (word_bank abbey_game) ''amber''"
  using abbey_table_pared pare_word_bank_subseq [OF abbey_table_pared]
  by (simp add: abbey_pared_def)

text \<open>
  C7. The solution survives paring against its own hints: if the bank contains the solution,
  then whatever \<^verbatim>\<open>pare_word_bank\<close> returns for the hint sequence of a guess still
  contains it. This holds for a guess of any length; no assumption on the guess is needed.
  The call returns whenever no word of the bank is shorter than the solution, in particular
  for a bank of words of the solution's length.
\<close>

theorem pare_word_bank_keeps_solution:
  assumes "solution g \<in> set (word_bank g)"
  shows "(\<forall>g'. pare_word_bank g (respond g guess) = Inr g' \<longrightarrow>
            solution g' \<in> set (word_bank g')) \<and>
         ((\<forall>w \<in> set (word_bank g). length (solution g) \<le> length w) \<longrightarrow>
            (\<exists>g'. pare_word_bank g (respond g guess) = Inr g'))"
proof (intro conjI impI allI)
  fix g'
  assume "pare_word_bank g (respond g guess) = Inr g'"
  then obtain b where "pare_from 0 (respond g guess) (word_bank g) = Inr b"
    and g': "g' = g\<lparr>word_bank := b\<rparr>"
    by (auto simp: pare_word_bank_Inr)
  then have "b = filter (consistent 0 (respond g guess)) (word_bank g)"
    by (simp add: pare_from_filter)
  with assms have "solution g \<in> set b" by (simp add: respond_consistent)
  then show "solution g' \<in> set (word_bank g')" by (simp add: g')
next
  assume "\<forall>w \<in> set (word_bank g). length (solution g) \<le> length w"
  then have "\<forall>w \<in> set (word_bank g). 0 + length (respond g guess) \<le> length w"
    by (auto simp: length_respond)
  then have "\<exists>b. pare_from 0 (respond g guess) (word_bank g) = Inr b"
    by (rule pare_from_total)
  then show "\<exists>g'. pare_word_bank g (respond g guess) = Inr g'"
    by (auto simp: pare_word_bank_Inr)
qed

theorem pare_word_bank_keeps_solution_witness:
  "solution abbey_game \<in> set (word_bank abbey_game) \<and>
   list_all (\<lambda>w. length (solution abbey_game) \<le> length w) (word_bank abbey_game) \<and>
   pare_word_bank abbey_game (respond abbey_game ''table'') = Inr abbey_pared \<and>
   solution abbey_pared \<in> set (word_bank abbey_pared)"
proof -
  have m: "solution abbey_game \<in> set (word_bank abbey_game)"
    by (simp add: abbey_game_def)
  have l: "list_all (\<lambda>w. length (solution abbey_game) \<le> length w) (word_bank abbey_game)"
    by (simp add: abbey_game_def)
  from m l abbey_table_pared pare_word_bank_keeps_solution [OF m, of "''table''"]
  show ?thesis by blast
qed

text \<open>
  C5. \<^verbatim>\<open>letter_frequencies\<close> is a document frequency: a letter that occurs in some
  word is mapped to the number of words that contain it (a word counts once, however often it
  repeats the letter), and a letter that occurs in no word has no entry. The empty list gives
  the empty map. The function is total: no step of the source can raise. For the bank
  \<^verbatim>\<open>["abbey", "deed"]\<close> the frequencies of b, e and d are 1, 2 and 1.
\<close>

theorem letter_frequencies_counts:
  "letter_frequencies words c =
     (if \<exists>w \<in> set words. c \<in> set w
      then Some (int (length (filter (\<lambda>w. c \<in> set w) words)))
      else None) \<and>
   letter_frequencies [] = Map.empty \<and>
   letter_frequencies [''abbey'', ''deed''] CHR ''b'' = Some 1 \<and>
   letter_frequencies [''abbey'', ''deed''] CHR ''e'' = Some 2 \<and>
   letter_frequencies [''abbey'', ''deed''] CHR ''d'' = Some 1"
  by (simp add: letter_frequencies_apply) (simp add: letter_frequencies_def)

text \<open>
  C1, amended. For a guess of the solution's length, position \<open>i\<close> is marked
  \<^verbatim>\<open>YES\<close> (Exact) iff the letters agree there, \<^verbatim>\<open>NO\<close> (Absent) iff the
  guessed letter occurs nowhere in the solution, and \<^verbatim>\<open>MOVE\<close> (Present) otherwise;
  the hint carries the guessed letter. For solution \<^verbatim>\<open>abbey\<close> and guess
  \<^verbatim>\<open>table\<close> the marks are Absent, Present, Exact, Absent, Present: the third
  letters agree, so the third mark is Exact and not Present.
\<close>

theorem respond_hints:
  "(length guess = length (solution g) \<longrightarrow>
      length (respond g guess) = length guess \<and>
      (\<forall>i < length guess.
         (fst (respond g guess ! i) = YES \<longleftrightarrow> guess ! i = solution g ! i) \<and>
         (fst (respond g guess ! i) = NO \<longleftrightarrow> guess ! i \<notin> set (solution g)) \<and>
         (fst (respond g guess ! i) = MOVE \<longleftrightarrow>
            guess ! i \<noteq> solution g ! i \<and> guess ! i \<in> set (solution g)) \<and>
         snd (respond g guess ! i) = guess ! i)) \<and>
   (solution g = ''abbey'' \<longrightarrow> map fst (respond g ''table'') = [NO, MOVE, YES, NO, MOVE])"
proof -
  have "length guess = length (solution g) \<Longrightarrow> length (respond g guess) = length guess"
    by (simp add: length_respond)
  moreover have "solution g = ''abbey'' \<Longrightarrow>
      map fst (respond g ''table'') = [NO, MOVE, YES, NO, MOVE]"
    by (simp add: respond_def evaluate_def)
  ultimately show ?thesis using respond_position [of guess g] by blast
qed

theorem respond_hints_witness:
  "length ''table'' = length (solution abbey_game) \<and>
   solution abbey_game = ''abbey'' \<and> (2::nat) < length ''table'' \<and>
   fst (respond abbey_game ''table'' ! 2) = YES \<and>
   ''table'' ! 2 = solution abbey_game ! 2 \<and>
   map fst (respond abbey_game ''table'') = [NO, MOVE, YES, NO, MOVE]"
  using respond_hints [of "''table''" abbey_game] by (simp add: abbey_game_def)

text \<open>
  The sequence Absent, Present, Present, Absent, Present, which the specification gives for
  \<^verbatim>\<open>abbey\<close> and \<^verbatim>\<open>table\<close>, is not the one returned.
\<close>

theorem respond_abbey_table_counterexample:
  "solution abbey_game = ''abbey'' \<and>
   map fst (respond abbey_game ''table'') \<noteq> [NO, MOVE, MOVE, NO, MOVE]"
  by (simp add: eval_defs)

text \<open>
  C4, amended. For a guess and a solution of different lengths \<^verbatim>\<open>respond\<close> raises
  nothing: \<^verbatim>\<open>zip\<close> stops at the shorter of the two, and the hint sequence returned
  has that length, its entry \<open>i\<close> being the evaluation of the two letters at \<open>i\<close>.
\<close>

theorem respond_truncates:
  "length guess \<noteq> length (solution g) \<Longrightarrow>
   length (respond g guess) = min (length guess) (length (solution g)) \<and>
   (\<forall>i < min (length guess) (length (solution g)).
      respond g guess ! i = evaluate g (guess ! i) (solution g ! i))"
  by (simp add: length_respond respond_nth)

theorem respond_truncates_witness:
  "length ''ab'' \<noteq> length (solution abbey_game) \<and>
   length (respond abbey_game ''ab'') = 2 \<and>
   respond abbey_game ''ab'' ! 1 = evaluate abbey_game CHR ''b'' CHR ''b''"
  using respond_truncates [of "''ab''" abbey_game] by (simp add: abbey_game_def)

text \<open>A guess shorter than the solution gets a hint sequence, truncated to the guess.\<close>

theorem respond_no_InvalidInput_counterexample:
  "length ''ab'' \<noteq> length (solution abbey_game) \<and>
   respond abbey_game ''ab'' = [(YES, CHR ''a''), (YES, CHR ''b'')]"
  by (simp add: eval_defs)

text \<open>
  C2, amended. For a non-empty bank of non-empty words \<^verbatim>\<open>next_guess\<close> returns a word
  of the bank whose score is maximal, and when several words share the maximal score it
  returns the one that comes last in the bank: every word before the returned occurrence
  scores at most as much, every word after it scores strictly less. (The reduction keeps its
  accumulator only when it is strictly greater, so a later word with an equal score
  replaces it.)
\<close>

theorem next_guess_last_max:
  assumes "word_bank g \<noteq> []" and "\<forall>w \<in> set (word_bank g). w \<noteq> []"
  shows "\<exists>us w vs s. next_guess g = Inr w \<and> word_bank g = us @ w # vs \<and>
     score (letter_frequencies (word_bank g)) w = Inr s \<and>
     (\<forall>u \<in> set us. \<exists>t. score (letter_frequencies (word_bank g)) u = Inr t \<and> t \<le> s) \<and>
     (\<forall>v \<in> set vs. \<exists>t. score (letter_frequencies (word_bank g)) v = Inr t \<and> t < s)"
  using assms by (rule next_guess_split)

theorem next_guess_last_max_witness:
  "word_bank tie_game \<noteq> [] \<and> list_all (\<lambda>w. w \<noteq> []) (word_bank tie_game) \<and>
   next_guess tie_game = Inr ''angle'' \<and>
   (\<exists>us vs. word_bank tie_game = us @ ''angle'' # vs)"
proof -
  have a: "word_bank tie_game \<noteq> []" by (simp add: tie_game_def)
  have b: "\<forall>w \<in> set (word_bank tie_game). w \<noteq> []" by (simp add: tie_game_def)
  from next_guess_last_max [OF a b] obtain us w vs where
    "next_guess tie_game = Inr w" and "word_bank tie_game = us @ w # vs" by blast
  with tie_game_guess have "\<exists>us vs. word_bank tie_game = us @ ''angle'' # vs" by auto
  with a b tie_game_guess show ?thesis by (simp add: list_all_iff)
qed

text \<open>
  Two anagrams have the same score; the second of them is returned, not the first.
\<close>

theorem next_guess_first_tie_counterexample:
  "word_bank tie_game = [''angel'', ''angle''] \<and>
   score (letter_frequencies (word_bank tie_game)) ''angel'' = Inr 10 \<and>
   score (letter_frequencies (word_bank tie_game)) ''angle'' = Inr 10 \<and>
   next_guess tie_game = Inr ''angle'' \<and>
   next_guess tie_game \<noteq> Inr ''angel''"
  using tie_game_scores tie_game_guess by (simp add: tie_game_def)

text \<open>
  C3, amended. When the bank is empty at the moment a guess has to be selected,
  \<^verbatim>\<open>next_guess\<close> raises \<^verbatim>\<open>TypeError\<close> (the reduction of an empty sequence),
  and \<^verbatim>\<open>play\<close> has no handler: the exception leaves \<^verbatim>\<open>play\<close>, and the
  session ends neither won nor lost.
\<close>

theorem play_empty_bank_raises:
  "\<not> solved g \<Longrightarrow> word_bank g = [] \<Longrightarrow>
   next_guess g = Inl TypeError \<and> play g = Some (Inl TypeError)"
  by (simp add: next_guess_empty play_no_guess)

theorem play_empty_bank_raises_witness:
  "\<not> solved empty_game \<and> word_bank empty_game = [] \<and>
   next_guess empty_game = Inl TypeError \<and> play empty_game = Some (Inl TypeError)"
proof -
  have a: "\<not> solved empty_game" and b: "word_bank empty_game = []"
    by (simp_all add: empty_game_def)
  from play_empty_bank_raises [OF a b] a b show ?thesis by simp
qed

text \<open>
  A session whose solution is not in the bank: the first round pares the bank to nothing, and
  the second round ends in the exception.
\<close>

theorem play_empty_bank_counterexample:
  "pare_word_bank chair_game (respond chair_game ''chair'') = Inr (chair_game\<lparr>word_bank := []\<rparr>) \<and>
   play chair_game = Some (Inl TypeError)"
  using chair_game_pared chair_game_play by simp

text \<open>
  C8. A fresh session (no responses yet, not solved) whose bank contains the solution and
  whose guess limit is at least 1 never loops forever: \<^verbatim>\<open>play\<close> ends. For a bank
  of the data model, whose words all have the length of the (non-empty) solution, it returns
  normally after at least one and at most \<^verbatim>\<open>guess_limit\<close> rounds, either won
  (\<^verbatim>\<open>solved\<close> set, the success message printed) or lost (\<^verbatim>\<open>solved\<close> unset,
  the failure message printed, exactly \<^verbatim>\<open>guess_limit\<close> rounds played).
\<close>

theorem play_terminates:
  assumes "solution g \<in> set (word_bank g)" and "1 \<le> guess_limit g"
    and "responses g = []" and "\<not> solved g"
  shows "(\<exists>res. play g = Some res) \<and>
     (solution g \<noteq> [] \<and> (\<forall>w \<in> set (word_bank g). length w = length (solution g)) \<longrightarrow>
        (\<exists>g' r. play g = Some (Inr (g', Some r)) \<and>
           1 \<le> length (responses g') \<and> int (length (responses g')) \<le> guess_limit g \<and>
           (solved g' \<and> r = Success (length (responses g')) (guess_limit g) \<or>
            \<not> solved g' \<and> r = Failure \<and> int (length (responses g')) = guess_limit g)))"
proof (intro conjI impI)
  from assms have "solved g \<or> int (length (responses g)) < guess_limit g" by simp
  then show "\<exists>res. play g = Some res" by (rule play_halts)
next
  assume wf: "solution g \<noteq> [] \<and> (\<forall>w \<in> set (word_bank g). length w = length (solution g))"
  from assms have lim: "int (length (responses g)) < guess_limit g" by simp
  from play_returns [OF assms(1) conjunct2 [OF wf] conjunct1 [OF wf] assms(4) lim]
  obtain g' r where "play g = Some (Inr (g', Some r))"
    "length (responses g) < length (responses g')"
    "int (length (responses g')) \<le> guess_limit g"
    "solved g' \<and> r = Success (length (responses g')) (guess_limit g) \<or>
     \<not> solved g' \<and> r = Failure \<and> int (length (responses g')) = guess_limit g"
    by blast
  then show "\<exists>g' r. play g = Some (Inr (g', Some r)) \<and>
           1 \<le> length (responses g') \<and> int (length (responses g')) \<le> guess_limit g \<and>
           (solved g' \<and> r = Success (length (responses g')) (guess_limit g) \<or>
            \<not> solved g' \<and> r = Failure \<and> int (length (responses g')) = guess_limit g)"
    by (intro exI [of _ g'] exI [of _ r]) auto
qed

theorem play_terminates_witness:
  "solution abbey_game \<in> set (word_bank abbey_game) \<and> 1 \<le> guess_limit abbey_game \<and>
   responses abbey_game = [] \<and> \<not> solved abbey_game \<and> solution abbey_game \<noteq> [] \<and>
   list_all (\<lambda>w. length w = length (solution abbey_game)) (word_bank abbey_game) \<and>
   play abbey_game = Some (Inr (abbey_won, Some (Success 2 6))) \<and>
   solved abbey_won \<and> length (responses abbey_won) = 2 \<and>
   int (length (responses abbey_won)) \<le> guess_limit abbey_game"
proof -
  have a: "solution abbey_game \<in> set (word_bank abbey_game)"
    and b: "1 \<le> guess_limit abbey_game"
    and c: "responses abbey_game = []"
    and d: "\<not> solved abbey_game"
    and e: "solution abbey_game \<noteq> []"
    and f: "\<forall>w \<in> set (word_bank abbey_game). length w = length (solution abbey_game)"
    by (simp_all add: abbey_game_def)
  from play_terminates [OF a b c d] e f obtain g' r where
    p: "play abbey_game = Some (Inr (g', Some r))"
    and l: "int (length (responses g')) \<le> guess_limit abbey_game"
    and o: "solved g' \<and> r = Success (length (responses g')) (guess_limit abbey_game) \<or>
       \<not> solved g' \<and> r = Failure \<and> int (length (responses g')) = guess_limit abbey_game"
    by blast
  from p abbey_game_play have g': "g' = abbey_won" by simp
  have w: "solved abbey_won" "length (responses abbey_won) = 2"
    by (simp_all add: abbey_won_def)
  have f': "list_all (\<lambda>w. length w = length (solution abbey_game)) (word_bank abbey_game)"
    by (simp add: abbey_game_def)
  from l have l': "int (length (responses abbey_won)) \<le> guess_limit abbey_game"
    unfolding g' .
  from a b c d e f' abbey_game_play w l' show ?thesis by blast
qed

end
